theory Spec2Isabelle
  imports Main
begin

section \<open>Python strings\<close>

text \<open>
  A Python \<open>str\<close> is a sequence of Unicode code points. A code point is modelled as a
  natural number, a string as a list of them; \<open>str\<close> turns an ASCII literal into such a
  list.
\<close>

type_synonym codepoint = nat
type_synonym pystr = "codepoint list"

definition str :: "string \<Rightarrow> pystr" where
  "str s = map of_char s"

text \<open>
  \<open>str.isspace\<close> per code point, as \<open>str.strip()\<close> without argument uses it: the code
  points whose bidirectional class is WS, B or S, or whose category is Zs.
\<close>

definition whitespace :: "codepoint list" where
  "whitespace =
     [9, 10, 11, 12, 13, 28, 29, 30, 31, 32, 133, 160, 5760,
      8192, 8193, 8194, 8195, 8196, 8197, 8198, 8199, 8200, 8201, 8202,
      8232, 8233, 8239, 8287, 12288]"

definition is_space :: "codepoint \<Rightarrow> bool" where
  "is_space c = (c \<in> set whitespace)"

text \<open>The line boundaries of \<open>str.splitlines()\<close>.\<close>

definition linebreaks :: "codepoint list" where
  "linebreaks = [10, 11, 12, 13, 28, 29, 30, 133, 8232, 8233]"

definition is_linebreak :: "codepoint \<Rightarrow> bool" where
  "is_linebreak c = (c \<in> set linebreaks)"

text \<open>\<open>s.strip()\<close>: leading and trailing whitespace removed.\<close>

definition strip :: "pystr \<Rightarrow> pystr" where
  "strip s = rev (dropWhile is_space (rev (dropWhile is_space s)))"

text \<open>\<open>s.startswith(p)\<close>.\<close>

definition startswith :: "pystr \<Rightarrow> pystr \<Rightarrow> bool" where
  "startswith s p = (take (length p) s = p)"

text \<open>
  \<open>s.splitlines()\<close>: while characters remain, the run up to the next line boundary is a
  line; the boundary is skipped, a carriage return followed by a line feed counting as
  one boundary. The empty string has no line, and a final boundary opens no further line.
\<close>

definition skip_break :: "pystr \<Rightarrow> pystr" where
  "skip_break s =
     (case s of
        [] \<Rightarrow> []
      | c # r \<Rightarrow> (case r of
                    [] \<Rightarrow> []
                  | d # r' \<Rightarrow> if c = 13 \<and> d = 10 then r' else r))"

function splitlines :: "pystr \<Rightarrow> pystr list" where
  "splitlines [] = []"
| "splitlines (c # s) =
     takeWhile (\<lambda>x. \<not> is_linebreak x) (c # s)
       # splitlines (skip_break (dropWhile (\<lambda>x. \<not> is_linebreak x) (c # s)))"
  by pat_completeness auto

termination splitlines
proof (relation "measure length")
  show "wf (measure length)"
    by simp
next
  fix c :: codepoint and s :: pystr
  let ?d = "dropWhile (\<lambda>x. \<not> is_linebreak x) (c # s)"
  have "length (skip_break d) \<le> length d - 1" for d
    by (simp add: skip_break_def split: list.splits)
  then have "length (skip_break ?d) \<le> length ?d - 1" .
  also have "\<dots> \<le> length (c # s) - 1"
    by (rule diff_le_mono) (rule length_dropWhile_le)
  finally show "(skip_break ?d, c # s) \<in> measure length"
    by simp
qed

section \<open>parse_csv: the loop over the lines\<close>

definition fence :: pystr where
  "fence = str ''```''"

text \<open>
  The \<open>for\<close> loop of \<open>parse_csv\<close>; \<open>lines\<close> is the list built so far.
\<close>

fun normalize_loop :: "pystr list \<Rightarrow> pystr list \<Rightarrow> pystr list" where
  "normalize_loop lines [] = lines"
| "normalize_loop lines (line # rest) =
     (let line' = strip line
      in if line' = [] \<or> startswith line' fence
         then normalize_loop lines rest
         else normalize_loop (lines @ [line']) rest)"

text \<open>The list \<open>lines\<close> of \<open>parse_csv\<close> when the loop is over.\<close>

definition normalize :: "pystr \<Rightarrow> pystr list" where
  "normalize csv_text = normalize_loop [] (splitlines csv_text)"

section \<open>csv.reader\<close>

text \<open>
  \<open>csv.reader(lines)\<close> of the Python standard library with its default dialect
  (\<open>excel\<close>): delimiter comma, quote character double quote, \<open>doublequote\<close> on, no
  escape character, \<open>skipinitialspace\<close> off, \<open>strict\<close> off. The reader is the state
  machine of CPython's \<open>Modules/_csv.c\<close>; the three states that only an escape character
  reaches are left out. The character \<open>None\<close> is the end of a line (\<open>EOL\<close>), which the
  reader feeds to the machine after the characters of each element of \<open>lines\<close>. The
  reader is that of CPython 3.11 and later, which takes a NUL character as any other;
  earlier versions reject a line that holds one.
\<close>

datatype error =
    CsvError string
  | ValueError string
  | IndexError

datatype parser_state =
    START_RECORD
  | START_FIELD
  | IN_FIELD
  | IN_QUOTED_FIELD
  | QUOTE_IN_QUOTED_FIELD
  | EAT_CRNL

record reader =
  state :: parser_state
  fields' :: "pystr list"
  field :: pystr

definition delimiter :: codepoint where
  "delimiter = 44"

definition quotechar :: codepoint where
  "quotechar = 34"

definition field_limit :: nat where
  "field_limit = 131072"

definition parse_reset :: reader where
  "parse_reset = \<lparr>state = START_RECORD, fields' = [], field = []\<rparr>"

definition parse_save_field :: "reader \<Rightarrow> reader" where
  "parse_save_field r = r\<lparr>fields' := fields' r @ [field r], field := []\<rparr>"

definition field_limit_error :: error where
  "field_limit_error = CsvError ''field larger than field limit (131072)''"

text \<open>
  The message of the second error of the reader is worded as CPython 3.11.10 has it;
  other releases word its second half differently. \<open>parse_csv\<close> never raises it
  (\<open>parse_csv_ok\<close> below).
\<close>

definition new_line_error :: error where
  "new_line_error =
     CsvError (''new-line character seen in unquoted field - ''
       @ ''do you need to open the file with newline='' @ [CHR 0x27, CHR 0x27] @ ''?'')"

definition parse_add_char :: "reader \<Rightarrow> codepoint \<Rightarrow> error + reader" where
  "parse_add_char r c =
     (if length (field r) \<ge> field_limit
      then Inl field_limit_error
      else Inr (r\<lparr>field := field r @ [c]\<rparr>))"

definition is_crlf :: "codepoint \<Rightarrow> bool" where
  "is_crlf c = (c = 10 \<or> c = 13)"

text \<open>
  \<open>parse_process_char\<close>, one case per state. The case \<open>START_FIELD\<close>, which
  \<open>START_RECORD\<close> falls through to, comes first.
\<close>

definition start_field :: "reader \<Rightarrow> codepoint option \<Rightarrow> error + reader" where
  "start_field r ch =
     (case ch of
        None \<Rightarrow> Inr ((parse_save_field r)\<lparr>state := START_RECORD\<rparr>)
      | Some c \<Rightarrow>
          if is_crlf c then Inr ((parse_save_field r)\<lparr>state := EAT_CRNL\<rparr>)
          else if c = quotechar then Inr (r\<lparr>state := IN_QUOTED_FIELD\<rparr>)
          else if c = delimiter then Inr (parse_save_field r)
          else (case parse_add_char r c of
                  Inl e \<Rightarrow> Inl e
                | Inr r' \<Rightarrow> Inr (r'\<lparr>state := IN_FIELD\<rparr>)))"

definition parse_process_char :: "reader \<Rightarrow> codepoint option \<Rightarrow> error + reader" where
  "parse_process_char r ch =
     (case state r of
        START_RECORD \<Rightarrow>
          (case ch of
             None \<Rightarrow> Inr r
           | Some c \<Rightarrow>
               if is_crlf c then Inr (r\<lparr>state := EAT_CRNL\<rparr>)
               else start_field (r\<lparr>state := START_FIELD\<rparr>) ch)
      | START_FIELD \<Rightarrow> start_field r ch
      | IN_FIELD \<Rightarrow>
          (case ch of
             None \<Rightarrow> Inr ((parse_save_field r)\<lparr>state := START_RECORD\<rparr>)
           | Some c \<Rightarrow>
               if is_crlf c then Inr ((parse_save_field r)\<lparr>state := EAT_CRNL\<rparr>)
               else if c = delimiter then Inr ((parse_save_field r)\<lparr>state := START_FIELD\<rparr>)
               else parse_add_char r c)
      | IN_QUOTED_FIELD \<Rightarrow>
          (case ch of
             None \<Rightarrow> Inr r
           | Some c \<Rightarrow>
               if c = quotechar then Inr (r\<lparr>state := QUOTE_IN_QUOTED_FIELD\<rparr>)
               else parse_add_char r c)
      | QUOTE_IN_QUOTED_FIELD \<Rightarrow>
          (case ch of
             None \<Rightarrow> Inr ((parse_save_field r)\<lparr>state := START_RECORD\<rparr>)
           | Some c \<Rightarrow>
               if c = quotechar then
                 (case parse_add_char r c of
                    Inl e \<Rightarrow> Inl e
                  | Inr r' \<Rightarrow> Inr (r'\<lparr>state := IN_QUOTED_FIELD\<rparr>))
               else if c = delimiter then Inr ((parse_save_field r)\<lparr>state := START_FIELD\<rparr>)
               else if is_crlf c then Inr ((parse_save_field r)\<lparr>state := EAT_CRNL\<rparr>)
               else (case parse_add_char r c of
                       Inl e \<Rightarrow> Inl e
                     | Inr r' \<Rightarrow> Inr (r'\<lparr>state := IN_FIELD\<rparr>)))
      | EAT_CRNL \<Rightarrow>
          (case ch of
             None \<Rightarrow> Inr (r\<lparr>state := START_RECORD\<rparr>)
           | Some c \<Rightarrow>
               if is_crlf c then Inr r
               else Inl new_line_error))"

text \<open>One element of \<open>lines\<close>: its characters, then \<open>EOL\<close>.\<close>

fun feed_line :: "reader \<Rightarrow> pystr \<Rightarrow> error + reader" where
  "feed_line r [] = parse_process_char r None"
| "feed_line r (c # cs) =
     (case parse_process_char r (Some c) of
        Inl e \<Rightarrow> Inl e
      | Inr r' \<Rightarrow> feed_line r' cs)"

text \<open>
  The records the reader yields until it is exhausted. A record is complete when the
  machine is back in \<open>START_RECORD\<close> after a line, and the machine is reset for the next
  one; otherwise the next line continues the record. When the lines run out inside a
  record (a field has characters, or a quoted field is open), the reader, not being
  strict, saves the field and yields the record.
\<close>

fun reader_loop :: "reader \<Rightarrow> pystr list list \<Rightarrow> pystr list \<Rightarrow> error + pystr list list" where
  "reader_loop r rows [] =
     (if field r \<noteq> [] \<or> state r = IN_QUOTED_FIELD
      then Inr (rows @ [fields' (parse_save_field r)])
      else Inr rows)"
| "reader_loop r rows (line # rest) =
     (case feed_line r line of
        Inl e \<Rightarrow> Inl e
      | Inr r' \<Rightarrow>
          if state r' \<noteq> START_RECORD then reader_loop r' rows rest
          else reader_loop parse_reset (rows @ [fields' r']) rest)"

definition csv_reader :: "pystr list \<Rightarrow> error + pystr list list" where
  "csv_reader lines = reader_loop parse_reset [] lines"

section \<open>parse_csv\<close>

text \<open>\<open>any(cell.strip() for cell in row)\<close>: a string is true when it is not empty.\<close>

definition any_cell :: "pystr list \<Rightarrow> bool" where
  "any_cell row = list_ex (\<lambda>cell. strip cell \<noteq> []) row"

text \<open>
  The last line of \<open>parse_csv\<close>,
  \<open>[row for row in csv.reader(lines) if any(cell.strip() for cell in row)]\<close>: an
  exception of the reader ends the comprehension.
\<close>

definition decode :: "pystr list \<Rightarrow> error + pystr list list" where
  "decode lines =
     (case csv_reader lines of
        Inl e \<Rightarrow> Inl e
      | Inr rows \<Rightarrow> Inr (filter any_cell rows))"

definition parse_csv :: "pystr \<Rightarrow> error + pystr list list" where
  "parse_csv csv_text = decode (normalize csv_text)"

section \<open>run_extraction\<close>

text \<open>\<open>xs[i]\<close> for an index that is not negative.\<close>

definition getitem :: "'a list \<Rightarrow> nat \<Rightarrow> error + 'a" where
  "getitem xs i = (if i < length xs then Inr (xs ! i) else Inl IndexError)"

text \<open>\<open>xs[lo:hi]\<close> for bounds that are not negative.\<close>

definition slice :: "'a list \<Rightarrow> nat \<Rightarrow> nat \<Rightarrow> 'a list" where
  "slice xs lo hi = drop lo (take hi xs)"

text \<open>
  A list comprehension \<open>[f(x) for x in xs]\<close> whose element expression can raise: the
  first exception ends it.
\<close>

fun collect :: "('a \<Rightarrow> error + 'b) \<Rightarrow> 'a list \<Rightarrow> error + 'b list" where
  "collect f [] = Inr []"
| "collect f (x # xs) =
     (case f x of
        Inl e \<Rightarrow> Inl e
      | Inr y \<Rightarrow> (case collect f xs of
                    Inl e \<Rightarrow> Inl e
                  | Inr ys \<Rightarrow> Inr (y # ys)))"

text \<open>\<open>idx = [i for i, h in enumerate(headers) if h in selected]\<close>\<close>

definition column_idx :: "pystr list \<Rightarrow> pystr list \<Rightarrow> nat list" where
  "column_idx headers selected =
     map fst (filter (\<lambda>(i, h). h \<in> set selected) (enumerate 0 headers))"

text \<open>\<open>row[i] if i < len(row) else ""\<close>\<close>

definition cell_at :: "pystr list \<Rightarrow> nat \<Rightarrow> error + pystr" where
  "cell_at row i = (if i < length row then getitem row i else Inr [])"

text \<open>The value of \<open>cell_at\<close>, which never raises (\<open>cell_at_Inr\<close> below).\<close>

definition cell_or_empty :: "pystr list \<Rightarrow> nat \<Rightarrow> pystr" where
  "cell_or_empty row i = (if i < length row then row ! i else [])"

text \<open>\<open>filtered = [[row[i] if i < len(row) else "" for i in idx] for row in rows]\<close>\<close>

definition filtered :: "pystr list list \<Rightarrow> nat list \<Rightarrow> error + pystr list list" where
  "filtered rows idx = collect (\<lambda>row. collect (cell_at row) idx) rows"

text \<open>
  The projection of \<open>run_extraction\<close> on its own: \<open>headers = rows[0]\<close>, then \<open>idx\<close> and
  \<open>filtered\<close>, for a given selection.
\<close>

definition project :: "pystr list list \<Rightarrow> pystr list \<Rightarrow> error + pystr list list" where
  "project rows selected =
     (case getitem rows 0 of
        Inl e \<Rightarrow> Inl e
      | Inr headers \<Rightarrow> filtered rows (column_idx headers selected))"

definition no_rows_msg :: string where
  "no_rows_msg = ''No rows parsed - model response seems empty or malformed.''"

definition no_columns_msg :: string where
  "no_columns_msg = ''No columns selected.''"

text \<open>
  \<open>run_extraction\<close> from the model's answer \<open>csv_raw\<close> to the rows handed to
  \<open>save_and_copy\<close>, or the exception that the \<open>except\<close> clause reports. The dialog
  \<open>choose_headers\<close> is a parameter; the first component of the result lists the calls
  made to it, each with its arguments \<open>(headers, preview_rows)\<close>. (The dash of the first
  message is an en dash in the source.)
\<close>

definition run_extraction ::
  "(pystr list \<Rightarrow> pystr list list \<Rightarrow> pystr list) \<Rightarrow> pystr
     \<Rightarrow> (pystr list \<times> pystr list list) list \<times> (error + pystr list list)" where
  "run_extraction choose_headers csv_raw =
     (case parse_csv csv_raw of
        Inl e \<Rightarrow> ([], Inl e)
      | Inr rows \<Rightarrow>
          if rows = [] then ([], Inl (ValueError no_rows_msg))
          else (case getitem rows 0 of
                  Inl e \<Rightarrow> ([], Inl e)
                | Inr headers \<Rightarrow>
                    let preview_rows = slice rows 1 6;
                        selected = choose_headers headers preview_rows
                    in if selected = []
                       then ([(headers, preview_rows)], Inl (ValueError no_columns_msg))
                       else ([(headers, preview_rows)], project rows selected)))"

section \<open>Notions used in the statements\<close>

text \<open>
  A line of whitespace only, and a line whose first characters after leading whitespace
  are the fence marker.
\<close>

definition blank_line :: "pystr \<Rightarrow> bool" where
  "blank_line line = list_all is_space line"

definition fence_line :: "pystr \<Rightarrow> bool" where
  "fence_line line = startswith (dropWhile is_space line) fence"

text \<open>
  The row step of the decoder as the specification words it, to compare with \<open>decode\<close>:
  every cell of a parsed row is trimmed, and a row whose cells are then all empty is
  dropped.
\<close>

definition trim_cells_drop_blank :: "pystr list list \<Rightarrow> pystr list list" where
  "trim_cells_drop_blank rows =
     filter (\<lambda>row. list_ex (\<lambda>cell. cell \<noteq> []) row) (map (map strip) rows)"

text \<open>
  The reader part-way through its input, for statements about what it does from there.
  \<open>feed_chars\<close> is \<open>feed_line\<close> without the final \<open>EOL\<close>, and \<open>reader_after\<close> is
  \<open>reader_loop\<close> without the end of the input: the machine and the records yielded
  once the given lines are read. \<open>reader_at pre p\<close> is the reader after the lines
  \<open>pre\<close> and then the characters \<open>p\<close> of the next line.
\<close>

fun feed_chars :: "reader \<Rightarrow> pystr \<Rightarrow> error + reader" where
  "feed_chars r [] = Inr r"
| "feed_chars r (c # cs) =
     (case parse_process_char r (Some c) of
        Inl e \<Rightarrow> Inl e
      | Inr r' \<Rightarrow> feed_chars r' cs)"

fun reader_after ::
  "reader \<Rightarrow> pystr list list \<Rightarrow> pystr list \<Rightarrow> error + reader \<times> pystr list list" where
  "reader_after r rows [] = Inr (r, rows)"
| "reader_after r rows (line # rest) =
     (case feed_line r line of
        Inl e \<Rightarrow> Inl e
      | Inr r' \<Rightarrow>
          if state r' \<noteq> START_RECORD then reader_after r' rows rest
          else reader_after parse_reset (rows @ [fields' r']) rest)"

definition reader_at :: "pystr list \<Rightarrow> pystr \<Rightarrow> error + reader \<times> pystr list list" where
  "reader_at pre p =
     (case reader_after parse_reset [] pre of
        Inl e \<Rightarrow> Inl e
      | Inr (r, rows) \<Rightarrow>
          (case feed_chars r p of
             Inl e \<Rightarrow> Inl e
           | Inr r' \<Rightarrow> Inr (r', rows)))"

text \<open>
  What one step of the reader, or several, may do to a reader \<open>r\<close> that is not in
  \<open>EAT_CRNL\<close>, on \<open>n\<close> characters other than carriage return and line feed: fail for
  the field limit, the field having reached it, or go on outside \<open>EAT_CRNL\<close> with a
  field at most \<open>n\<close> longer.
\<close>

definition step_ok :: "reader \<Rightarrow> nat \<Rightarrow> error + reader \<Rightarrow> bool" where
  "step_ok r n res =
     (case res of
        Inl e \<Rightarrow> e = field_limit_error \<and> field_limit < length (field r) + n
      | Inr r' \<Rightarrow> state r' \<noteq> EAT_CRNL \<and> length (field r') \<le> length (field r) + n)"

section \<open>Rules for evaluating the definitions on concrete inputs\<close>

lemmas str_ev = str_def is_linebreak_def linebreaks_def skip_break_def is_space_def whitespace_def
  strip_def startswith_def fence_def normalize_def Let_def

lemmas csv_ev = csv_reader_def parse_reset_def parse_save_field_def parse_add_char_def
  is_crlf_def start_field_def parse_process_char_def delimiter_def quotechar_def field_limit_def
  decode_def parse_csv_def any_cell_def

lemmas proj_ev = project_def getitem_def filtered_def column_idx_def cell_at_def slice_def
  enumerate_eq_zip

section \<open>The lines kept by parse_csv\<close>

lemma normalize_loop_filter:
  "normalize_loop acc ls =
     acc @ filter (\<lambda>l. l \<noteq> [] \<and> \<not> startswith l fence) (map strip ls)"
  by (induction ls arbitrary: acc) (simp_all add: Let_def)

text \<open>
  Claim C5. The lines that \<open>parse_csv\<close> hands to the CSV reader are the lines of the
  input, each trimmed, without those that are then empty or start with the fence marker
  \<open>```\<close>, in their order; none of them is empty and none starts with the marker.
\<close>

theorem normalize_filter:
  "normalize raw =
     filter (\<lambda>l. l \<noteq> [] \<and> \<not> startswith l fence) (map strip (splitlines raw))
   \<and> (\<forall>l \<in> set (normalize raw). l \<noteq> [] \<and> \<not> startswith l fence)"
  by (simp add: normalize_def normalize_loop_filter)

theorem normalize_filter_witness:
  "normalize (str ''```csv\<newline> a,b \<newline>\<newline>c'') = [str ''a,b'', str ''c'']
   \<and> str ''a,b'' \<in> set (normalize (str ''```csv\<newline> a,b \<newline>\<newline>c''))
   \<and> str ''a,b'' \<noteq> [] \<and> \<not> startswith (str ''a,b'') fence"
proof -
  have n: "normalize (str ''```csv\<newline> a,b \<newline>\<newline>c'') = [str ''a,b'', str ''c'']"
    by (simp add: str_ev)
  then have "str ''a,b'' \<in> set (normalize (str ''```csv\<newline> a,b \<newline>\<newline>c''))"
    by simp
  with n normalize_filter [of "str ''```csv\<newline> a,b \<newline>\<newline>c''"] show ?thesis
    by blast
qed

section \<open>The projection\<close>

lemma collect_Inr:
  "(\<And>x. x \<in> set xs \<Longrightarrow> f x = Inr (g x)) \<Longrightarrow> collect f xs = Inr (map g xs)"
  by (induction xs) simp_all

lemma cell_at_Inr: "cell_at row i = Inr (cell_or_empty row i)"
  by (simp add: cell_at_def getitem_def cell_or_empty_def)

lemma filtered_Inr:
  "filtered rows idx = Inr (map (\<lambda>row. map (cell_or_empty row) idx) rows)"
  unfolding filtered_def
  by (rule collect_Inr) (rule collect_Inr, rule cell_at_Inr)

lemma project_Cons:
  "project (headers # rest) selected =
     Inr (map (\<lambda>row. map (cell_or_empty row) (column_idx headers selected)) (headers # rest))"
  by (simp add: project_def getitem_def filtered_Inr)

lemma project_Nil: "project [] selected = Inl IndexError"
  by (simp add: project_def getitem_def)

lemma column_idx_filter:
  "column_idx headers selected = filter (\<lambda>i. headers ! i \<in> set selected) [0..<length headers]"
proof -
  let ?z = "zip [0..<length headers] headers"
  let ?P = "\<lambda>i. headers ! i \<in> set selected"
  have "filter (\<lambda>(i, h). h \<in> set selected) ?z = filter (\<lambda>p. ?P (fst p)) ?z"
    by (rule filter_cong) (auto simp: in_set_zip)
  then have "map fst (filter (\<lambda>(i, h). h \<in> set selected) ?z) = map fst (filter (?P \<circ> fst) ?z)"
    by (simp add: comp_def)
  also have "\<dots> = filter ?P (map fst ?z)"
    by (simp only: filter_map)
  finally show ?thesis
    by (simp add: column_idx_def enumerate_eq_zip)
qed

lemma column_idx_bound: "i \<in> set (column_idx headers selected) \<Longrightarrow> i < length headers"
  by (simp add: column_idx_filter)

lemma column_idx_all:
  "set headers \<subseteq> set selected \<Longrightarrow> column_idx headers selected = [0..<length headers]"
  unfolding column_idx_filter
  by (rule filter_True) auto

lemma map_cell_or_empty_upt:
  "length row = n \<Longrightarrow> map (cell_or_empty row) [0..<n] = row"
  by (auto simp: cell_or_empty_def intro!: nth_equalityI)

lemma project_full:
  assumes "set headers \<subseteq> set selected"
    and "\<forall>row \<in> set rest. length row = length headers"
  shows "project (headers # rest) selected = Inr (headers # rest)"
proof -
  have "map (\<lambda>row. map (cell_or_empty row) [0..<length headers]) (headers # rest) = headers # rest"
    using assms(2) by (auto simp: map_cell_or_empty_upt intro!: map_idI)
  then show ?thesis
    using assms(1) by (simp only: project_Cons column_idx_all)
qed

lemma header_of_projection:
  "map (cell_or_empty headers) (column_idx headers selected)
     = filter (\<lambda>h. h \<in> set selected) headers"
proof -
  have "map (cell_or_empty headers) (column_idx headers selected)
        = map ((!) headers) (column_idx headers selected)"
    by (rule map_cong) (auto simp: cell_or_empty_def dest: column_idx_bound)
  also have "\<dots> = filter (\<lambda>h. h \<in> set selected) (map ((!) headers) [0..<length headers])"
    by (simp add: column_idx_filter filter_map comp_def)
  finally show ?thesis
    by (simp add: map_nth)
qed

lemma project_project:
  assumes "project t s = Inr p"
  shows "project p s = Inr p"
proof (cases t)
  case Nil
  with assms show ?thesis by (simp add: project_Nil)
next
  case (Cons headers rest)
  let ?idx = "column_idx headers s"
  let ?f = "\<lambda>row. map (cell_or_empty row) ?idx"
  from assms Cons have p: "p = ?f headers # map ?f rest"
    by (simp add: project_Cons)
  have "set (?f headers) \<subseteq> set s"
    by (auto simp: header_of_projection)
  moreover have "\<forall>row \<in> set (map ?f rest). length row = length (?f headers)"
    by simp
  ultimately show ?thesis
    unfolding p by (rule project_full)
qed


text \<open>
  Claim C2, as the code has it. Selecting every header gives the table back when every
  row has as many cells as the header row. A shorter row is padded with empty cells and a
  longer one is cut to the header's length; the counterexample is the table decoded from
  the two lines \<open>Name,Age\<close> and \<open>Bob\<close>, whose second row gains an empty cell.
\<close>

theorem project_full_selection:
  assumes "rows = headers # rest"
    and "set selected = set headers"
    and "\<forall>row \<in> set rest. length row = length headers"
  shows "project rows selected = Inr rows"
  using assms by (simp add: project_full)

theorem project_full_selection_witness:
  "set [str ''Age'', str ''Name''] = set [str ''Name'', str ''Age'']
   \<and> length [str ''Alice'', str ''30''] = length [str ''Name'', str ''Age'']
   \<and> project [[str ''Name'', str ''Age''], [str ''Alice'', str ''30'']] [str ''Age'', str ''Name'']
       = Inr [[str ''Name'', str ''Age''], [str ''Alice'', str ''30'']]"
proof -
  have a: "set [str ''Age'', str ''Name''] = set [str ''Name'', str ''Age'']"
    by auto
  have b: "\<forall>row \<in> set [[str ''Alice'', str ''30'']]. length row = length [str ''Name'', str ''Age'']"
    by simp
  from project_full_selection [OF refl a b] a show ?thesis
    by simp
qed

theorem project_full_selection_counterexample:
  "parse_csv (str ''Name,Age\<newline>Bob'') = Inr [[str ''Name'', str ''Age''], [str ''Bob'']]
   \<and> project [[str ''Name'', str ''Age''], [str ''Bob'']] [str ''Name'', str ''Age'']
       = Inr [[str ''Name'', str ''Age''], [str ''Bob'', str '''']]
   \<and> project [[str ''Name'', str ''Age''], [str ''Bob'']] [str ''Name'', str ''Age'']
       \<noteq> Inr [[str ''Name'', str ''Age''], [str ''Bob'']]"
  by (simp add: str_ev csv_ev proj_ev)

text \<open>
  Claim C6. The projection of a table that has a header row raises no exception, and
  where a row has no cell at a retained column index, the projected cell is the empty
  string.
\<close>

theorem project_short_row:
  assumes "rows \<noteq> []"
  shows "\<exists>p. project rows selected = Inr p
           \<and> (\<forall>r k. r < length rows \<longrightarrow> k < length (column_idx (hd rows) selected)
                  \<longrightarrow> length (rows ! r) \<le> column_idx (hd rows) selected ! k
                  \<longrightarrow> p ! r ! k = [])"
proof -
  from assms obtain headers rest where rows: "rows = headers # rest"
    by (cases rows) auto
  let ?idx = "column_idx headers selected"
  let ?p = "map (\<lambda>row. map (cell_or_empty row) ?idx) rows"
  have "project rows selected = Inr ?p"
    unfolding rows by (rule project_Cons)
  moreover have "?p ! r ! k = []"
    if "r < length rows" "k < length ?idx" "length (rows ! r) \<le> ?idx ! k" for r k
    using that by (simp add: cell_or_empty_def)
  ultimately show ?thesis
    by (auto simp: rows)
qed

theorem project_short_row_witness:
  "[[str ''Name'', str ''Age''], [str ''Bob'']] \<noteq> []
   \<and> column_idx [str ''Name'', str ''Age''] [str ''Age''] = [1]
   \<and> length ([[str ''Name'', str ''Age''], [str ''Bob'']] ! 1) \<le> 1
   \<and> (\<exists>p. project [[str ''Name'', str ''Age''], [str ''Bob'']] [str ''Age''] = Inr p
          \<and> p ! 1 ! 0 = [])"
proof -
  let ?rows = "[[str ''Name'', str ''Age''], [str ''Bob'']]"
  have ne: "?rows \<noteq> []"
    by simp
  have idx: "column_idx [str ''Name'', str ''Age''] [str ''Age''] = [1]"
    by (simp add: str_ev proj_ev)
  from project_short_row [OF ne, of "[str ''Age'']"] obtain p
    where p: "project ?rows [str ''Age''] = Inr p"
      and short: "\<forall>r k. r < length ?rows \<longrightarrow> k < length (column_idx (hd ?rows) [str ''Age''])
                  \<longrightarrow> length (?rows ! r) \<le> column_idx (hd ?rows) [str ''Age''] ! k
                  \<longrightarrow> p ! r ! k = []"
    by blast
  from short [rule_format, of 1 0] idx have "p ! 1 ! 0 = []"
    by simp
  with p ne idx show ?thesis
    by auto
qed

text \<open>
  Claim C7. Projecting the result of a projection with the same selection, which is the
  set of the result's headers, gives the same result again.
\<close>

theorem project_idempotent:
  assumes "project t s = Inr p"
    and "set s = set (hd p)"
  shows "project p s = Inr p"
  using assms(1) by (rule project_project)

theorem project_idempotent_witness:
  "project [[str ''Name'', str ''Age''], [str ''Alice'', str ''30'']] [str ''Name'']
     = Inr [[str ''Name''], [str ''Alice'']]
   \<and> set [str ''Name''] = set (hd [[str ''Name''], [str ''Alice'']])
   \<and> project [[str ''Name''], [str ''Alice'']] [str ''Name'']
       = Inr [[str ''Name''], [str ''Alice'']]"
proof -
  have a: "project [[str ''Name'', str ''Age''], [str ''Alice'', str ''30'']] [str ''Name'']
             = Inr [[str ''Name''], [str ''Alice'']]"
    by (simp add: str_ev proj_ev)
  have b: "set [str ''Name''] = set (hd [[str ''Name''], [str ''Alice'']])"
    by simp
  from project_idempotent [OF a b] a b show ?thesis
    by blast
qed

text \<open>
  Claim C10. The projection has as many rows as the table, and each of them, the header
  row too, has one cell for each retained column index, whatever the lengths of the
  table's rows.
\<close>

theorem project_rectangular:
  assumes "rows \<noteq> []"
  shows "\<exists>p. project rows selected = Inr p \<and> length p = length rows
           \<and> (\<forall>row \<in> set p. length row = length (column_idx (hd rows) selected))"
proof -
  from assms obtain headers rest where rows: "rows = headers # rest"
    by (cases rows) auto
  show ?thesis
    unfolding rows by (auto simp: project_Cons)
qed

theorem project_rectangular_witness:
  "[[str ''Name'', str ''Age''], [str ''Bob'']] \<noteq> []
   \<and> project [[str ''Name'', str ''Age''], [str ''Bob'']] [str ''Age'', str ''Name'']
       = Inr [[str ''Name'', str ''Age''], [str ''Bob'', str '''']]
   \<and> length [str ''Name'', str ''Age''] = 2 \<and> length [str ''Bob'', str ''''] = 2"
proof -
  let ?rows = "[[str ''Name'', str ''Age''], [str ''Bob'']]"
  have ne: "?rows \<noteq> []"
    by simp
  have idx: "column_idx (hd ?rows) [str ''Age'', str ''Name''] = [0, 1]"
    by (simp add: str_ev proj_ev)
  have ev: "project ?rows [str ''Age'', str ''Name'']
              = Inr [[str ''Name'', str ''Age''], [str ''Bob'', str '''']]"
    by (simp add: str_ev proj_ev)
  from project_rectangular [OF ne, of "[str ''Age'', str ''Name'']"] ev idx ne show ?thesis
    by auto
qed

text \<open>
  Claim C8. The fenced example decodes to the table of three rows, whose last row is
  \<open>Bob\<close> with an empty cell, and selecting \<open>Name\<close> gives the three one-cell rows;
  \<open>run_extraction\<close> with a dialog that answers \<open>Name\<close> gets there, too.
\<close>

theorem example_decode_project:
  "parse_csv (str ''```csv\<newline>Name,Age\<newline>Alice,30\<newline>Bob,\<newline>```'')
     = Inr [[str ''Name'', str ''Age''], [str ''Alice'', str ''30''], [str ''Bob'', str '''']]
   \<and> project [[str ''Name'', str ''Age''], [str ''Alice'', str ''30''], [str ''Bob'', str '''']]
         [str ''Name'']
       = Inr [[str ''Name''], [str ''Alice''], [str ''Bob'']]
   \<and> run_extraction (\<lambda>headers preview_rows. [str ''Name''])
         (str ''```csv\<newline>Name,Age\<newline>Alice,30\<newline>Bob,\<newline>```'')
       = ([([str ''Name'', str ''Age''], [[str ''Alice'', str ''30''], [str ''Bob'', str '''']])],
          Inr [[str ''Name''], [str ''Alice''], [str ''Bob'']])"
proof -
  have a: "parse_csv (str ''```csv\<newline>Name,Age\<newline>Alice,30\<newline>Bob,\<newline>```'')
     = Inr [[str ''Name'', str ''Age''], [str ''Alice'', str ''30''], [str ''Bob'', str '''']]"
    by (simp add: str_ev csv_ev)
  have b: "project [[str ''Name'', str ''Age''], [str ''Alice'', str ''30''], [str ''Bob'', str '''']]
         [str ''Name'']
       = Inr [[str ''Name''], [str ''Alice''], [str ''Bob'']]"
    by (simp add: str_ev proj_ev)
  show ?thesis
    by (simp add: run_extraction_def a b getitem_def slice_def)
qed

section \<open>The CSV reader and the pipeline\<close>


lemma parse_add_char_ok:
  "parse_add_char r c = Inl field_limit_error \<and> field_limit \<le> length (field r)
   \<or> parse_add_char r c = Inr (r\<lparr>field := field r @ [c]\<rparr>)"
  by (simp add: parse_add_char_def field_limit_error_def)

lemma start_field_char_ok:
  assumes "\<not> is_crlf c" and "state r \<noteq> EAT_CRNL"
  shows "step_ok r (Suc n) (start_field r (Some c))"
  using assms parse_add_char_ok [of r c]
  by (auto simp: step_ok_def start_field_def parse_save_field_def)

lemma start_field_eol_ok: "step_ok r n (start_field r None)"
  by (simp add: step_ok_def start_field_def parse_save_field_def)

lemma parse_process_char_ok:
  assumes "\<not> is_crlf c" and "state r \<noteq> EAT_CRNL"
  shows "step_ok r (Suc n) (parse_process_char r (Some c))"
proof (cases "state r")
  case START_RECORD
  have "step_ok (r\<lparr>state := START_FIELD\<rparr>) (Suc n) (start_field (r\<lparr>state := START_FIELD\<rparr>) (Some c))"
    using assms(1) by (intro start_field_char_ok) simp_all
  then show ?thesis
    using START_RECORD assms(1)
    by (auto simp: parse_process_char_def step_ok_def split: sum.splits)
next
  case START_FIELD
  then show ?thesis
    using start_field_char_ok [OF assms] by (simp add: parse_process_char_def)
next
  case IN_FIELD
  then show ?thesis
    using assms parse_add_char_ok [of r c]
    by (auto simp: parse_process_char_def step_ok_def parse_save_field_def)
next
  case IN_QUOTED_FIELD
  then show ?thesis
    using assms parse_add_char_ok [of r c]
    by (auto simp: parse_process_char_def step_ok_def parse_save_field_def)
next
  case QUOTE_IN_QUOTED_FIELD
  then show ?thesis
    using assms parse_add_char_ok [of r c]
    by (auto simp: parse_process_char_def step_ok_def parse_save_field_def)
next
  case EAT_CRNL
  with assms show ?thesis by simp
qed

lemma parse_process_eol_ok:
  "step_ok r 0 (parse_process_char r None)"
  by (cases "state r")
    (simp_all add: parse_process_char_def step_ok_def start_field_def parse_save_field_def)


lemma step_ok_trans:
  assumes "step_ok r n (Inr r')" and "step_ok r' m res"
  shows "step_ok r (n + m) res"
  using assms by (auto simp: step_ok_def split: sum.splits)

lemma feed_line_ok:
  assumes "\<forall>c \<in> set line. \<not> is_crlf c" and "state r \<noteq> EAT_CRNL"
  shows "step_ok r (length line) (feed_line r line)"
  using assms
proof (induction line arbitrary: r)
  case Nil
  show ?case
    using parse_process_eol_ok [of r] by simp
next
  case (Cons c cs)
  have first: "step_ok r (Suc 0) (parse_process_char r (Some c))"
    using Cons.prems by (intro parse_process_char_ok) simp_all
  show ?case
  proof (cases "parse_process_char r (Some c)")
    case (Inl e)
    with first show ?thesis
      by (simp add: step_ok_def)
  next
    case (Inr r')
    with first have r': "step_ok r (Suc 0) (Inr r')"
      by simp
    then have "state r' \<noteq> EAT_CRNL"
      by (simp add: step_ok_def)
    with Cons have "step_ok r' (length cs) (feed_line r' cs)"
      by simp
    with r' have "step_ok r (Suc 0 + length cs) (feed_line r' cs)"
      by (rule step_ok_trans)
    with Inr show ?thesis
      by simp
  qed
qed

lemma reader_loop_ok:
  assumes "\<forall>line \<in> set lines. \<forall>c \<in> set line. \<not> is_crlf c" and "state r \<noteq> EAT_CRNL"
  shows "(\<exists>t. reader_loop r rows lines = Inr t)
         \<or> (reader_loop r rows lines = Inl field_limit_error
             \<and> field_limit < length (field r) + sum_list (map length lines))"
  using assms
proof (induction lines arbitrary: r rows)
  case Nil
  show ?case by simp
next
  case (Cons line rest)
  have fl: "step_ok r (length line) (feed_line r line)"
    using Cons.prems by (intro feed_line_ok) simp_all
  show ?case
  proof (cases "feed_line r line")
    case (Inl e)
    with fl show ?thesis
      by (simp add: step_ok_def)
  next
    case (Inr r')
    with fl have st: "state r' \<noteq> EAT_CRNL"
      and len: "length (field r') \<le> length (field r) + length line"
      by (simp_all add: step_ok_def)
    show ?thesis
    proof (cases "state r' = START_RECORD")
      case True
      have "(\<exists>t. reader_loop parse_reset (rows @ [fields' r']) rest = Inr t)
            \<or> (reader_loop parse_reset (rows @ [fields' r']) rest = Inl field_limit_error
                \<and> field_limit < length (field parse_reset) + sum_list (map length rest))"
        using Cons.prems by (intro Cons.IH) (simp_all add: parse_reset_def)
      with Inr True show ?thesis
        by (auto simp: parse_reset_def)
    next
      case False
      have "(\<exists>t. reader_loop r' rows rest = Inr t)
            \<or> (reader_loop r' rows rest = Inl field_limit_error
                \<and> field_limit < length (field r') + sum_list (map length rest))"
        using Cons.prems st by (intro Cons.IH) simp_all
      with Inr False len show ?thesis
        by auto
    qed
  qed
qed

lemma csv_reader_ok:
  assumes "\<forall>line \<in> set lines. \<forall>c \<in> set line. \<not> is_crlf c"
  shows "(\<exists>t. csv_reader lines = Inr t)
         \<or> (csv_reader lines = Inl field_limit_error
             \<and> field_limit < sum_list (map length lines))"
  using reader_loop_ok [OF assms, of parse_reset "[]"]
  by (simp add: csv_reader_def parse_reset_def)


lemma is_crlf_linebreak: "is_crlf c \<Longrightarrow> is_linebreak c"
  by (auto simp: is_crlf_def is_linebreak_def linebreaks_def)

lemma length_skip_break: "length (skip_break d) \<le> length d"
  by (simp add: skip_break_def split: list.splits)

lemma splitlines_no_break:
  "l \<in> set (splitlines s) \<Longrightarrow> c \<in> set l \<Longrightarrow> \<not> is_linebreak c"
proof (induction s arbitrary: l rule: splitlines.induct)
  case 1
  then show ?case by simp
next
  case (2 d s)
  from "2.prems"(1)
  have "l = takeWhile (\<lambda>x. \<not> is_linebreak x) (d # s)
        \<or> l \<in> set (splitlines (skip_break (dropWhile (\<lambda>x. \<not> is_linebreak x) (d # s))))"
    by (simp del: takeWhile.simps dropWhile.simps)
  then show ?case
  proof
    assume "l = takeWhile (\<lambda>x. \<not> is_linebreak x) (d # s)"
    with "2.prems"(2) show ?thesis
      by (auto dest: set_takeWhileD)
  next
    assume "l \<in> set (splitlines (skip_break (dropWhile (\<lambda>x. \<not> is_linebreak x) (d # s))))"
    then show ?thesis
      using "2.prems"(2) by (rule "2.IH")
  qed
qed

lemma splitlines_total_length: "sum_list (map length (splitlines s)) \<le> length s"
proof (induction s rule: splitlines.induct)
  case 1
  show ?case by simp
next
  case (2 d s)
  let ?P = "\<lambda>x. \<not> is_linebreak x"
  have "sum_list (map length (splitlines (d # s)))
        = length (takeWhile ?P (d # s))
          + sum_list (map length (splitlines (skip_break (dropWhile ?P (d # s)))))"
    by (simp del: takeWhile.simps dropWhile.simps)
  also have "\<dots> \<le> length (takeWhile ?P (d # s)) + length (skip_break (dropWhile ?P (d # s)))"
    using "2.IH" by (rule add_left_mono)
  also have "\<dots> \<le> length (takeWhile ?P (d # s)) + length (dropWhile ?P (d # s))"
    by (rule add_left_mono) (rule length_skip_break)
  also have "\<dots> = length (takeWhile ?P (d # s) @ dropWhile ?P (d # s))"
    by (simp only: length_append)
  also have "\<dots> = length (d # s)"
    by (simp only: takeWhile_dropWhile_id)
  finally show ?case .
qed

lemma set_strip: "set (strip l) \<subseteq> set l"
proof -
  have "set (strip l) = set (dropWhile is_space (rev (dropWhile is_space l)))"
    by (simp add: strip_def)
  also have "\<dots> \<subseteq> set (rev (dropWhile is_space l))"
    by (rule subsetI) (rule set_dropWhileD)
  also have "\<dots> \<subseteq> set l"
    by (auto dest: set_dropWhileD)
  finally show ?thesis .
qed

lemma length_strip: "length (strip l) \<le> length l"
proof -
  have "length (strip l) = length (dropWhile is_space (rev (dropWhile is_space l)))"
    by (simp add: strip_def)
  also have "\<dots> \<le> length (rev (dropWhile is_space l))"
    by (rule length_dropWhile_le)
  also have "\<dots> = length (dropWhile is_space l)"
    by simp
  also have "\<dots> \<le> length l"
    by (rule length_dropWhile_le)
  finally show ?thesis .
qed

lemma sum_length_filter: "sum_list (map length (filter P xs)) \<le> sum_list (map length xs)"
  by (induction xs) simp_all

lemma sum_length_strip: "sum_list (map length (map strip xs)) \<le> sum_list (map length xs)"
  by (induction xs) (simp_all add: add_mono length_strip)

lemma normalize_total_length: "sum_list (map length (normalize raw)) \<le> length raw"
proof -
  have "sum_list (map length (normalize raw)) \<le> sum_list (map length (map strip (splitlines raw)))"
    by (simp only: normalize_def normalize_loop_filter append_Nil sum_length_filter)
  also have "\<dots> \<le> sum_list (map length (splitlines raw))"
    by (rule sum_length_strip)
  also have "\<dots> \<le> length raw"
    by (rule splitlines_total_length)
  finally show ?thesis .
qed

lemma normalize_no_crlf:
  assumes "line \<in> set (normalize raw)" and "c \<in> set line"
  shows "\<not> is_crlf c"
proof -
  from assms(1) obtain l where l: "l \<in> set (splitlines raw)" and line: "line = strip l"
    by (auto simp: normalize_def normalize_loop_filter)
  from assms(2) line have "c \<in> set l"
    using set_strip by auto
  with l have "\<not> is_linebreak c"
    by (rule splitlines_no_break)
  then show ?thesis
    using is_crlf_linebreak by blast
qed

lemma decode_ok:
  assumes "\<forall>line \<in> set lines. \<forall>c \<in> set line. \<not> is_crlf c"
  shows "(\<exists>t. decode lines = Inr t)
         \<or> (decode lines = Inl field_limit_error \<and> field_limit < sum_list (map length lines))"
  using csv_reader_ok [OF assms] by (auto simp: decode_def)

lemma parse_csv_ok:
  "(\<exists>t. parse_csv raw = Inr t)
   \<or> (parse_csv raw = Inl field_limit_error \<and> field_limit < length raw)"
proof -
  have "\<forall>line \<in> set (normalize raw). \<forall>c \<in> set line. \<not> is_crlf c"
    using normalize_no_crlf by blast
  from decode_ok [OF this] normalize_total_length [of raw] show ?thesis
    by (auto simp: parse_csv_def)
qed

lemma strip_empty_iff: "strip l = [] \<longleftrightarrow> blank_line l"
proof -
  let ?d = "dropWhile is_space l"
  have "strip l = [] \<longleftrightarrow> (\<forall>x \<in> set ?d. is_space x)"
    by (simp add: strip_def dropWhile_eq_Nil_conv)
  also have "\<dots> \<longleftrightarrow> ?d = []"
  proof
    assume all: "\<forall>x \<in> set ?d. is_space x"
    show "?d = []"
    proof (rule ccontr)
      assume ne: "?d \<noteq> []"
      then have "\<not> is_space (hd ?d)"
        by (rule hd_dropWhile)
      moreover from ne have "hd ?d \<in> set ?d"
        by (rule hd_in_set)
      ultimately show False
        using all by blast
    qed
  qed (auto dest: set_dropWhileD)
  also have "\<dots> \<longleftrightarrow> blank_line l"
    by (simp add: dropWhile_eq_Nil_conv blank_line_def list_all_iff)
  finally show ?thesis .
qed

lemma dropWhile_keeps_suffix:
  "ys \<noteq> [] \<Longrightarrow> \<not> P (hd ys) \<Longrightarrow> \<exists>zs. dropWhile P (xs @ ys) = zs @ ys"
proof (induction xs)
  case Nil
  then have "dropWhile P ys = ys"
    by (cases ys) simp_all
  then show ?case by simp
next
  case (Cons x xs)
  show ?case
  proof (cases "P x")
    case True
    with Cons show ?thesis
      by simp
  next
    case False
    then have "dropWhile P ((x # xs) @ ys) = (x # xs) @ ys"
      by simp
    then show ?thesis
      by blast
  qed
qed

lemma strip_fence_line:
  assumes "fence_line l"
  shows "startswith (strip l) fence"
proof -
  let ?d = "dropWhile is_space l"
  from assms have tk: "take (length fence) ?d = fence"
    by (simp add: fence_line_def startswith_def)
  have d: "?d = fence @ drop (length fence) ?d"
    using append_take_drop_id [of "length fence" ?d] tk by simp
  have "rev fence \<noteq> []" and "\<not> is_space (hd (rev fence))"
    by (simp_all add: fence_def str_def is_space_def whitespace_def)
  then obtain zs where
    "dropWhile is_space (rev (drop (length fence) ?d) @ rev fence) = zs @ rev fence"
    using dropWhile_keeps_suffix by blast
  moreover have "rev ?d = rev (drop (length fence) ?d) @ rev fence"
    by (subst d) (simp only: rev_append)
  ultimately have "strip l = fence @ rev zs"
    by (simp add: strip_def)
  then show ?thesis
    by (simp add: startswith_def)
qed

lemma normalize_empty:
  assumes "\<forall>line \<in> set (splitlines raw). blank_line line \<or> fence_line line"
  shows "normalize raw = []"
proof -
  have "strip line = [] \<or> startswith (strip line) fence" if "line \<in> set (splitlines raw)" for line
    using that assms strip_empty_iff strip_fence_line by blast
  then show ?thesis
    by (auto simp: normalize_def normalize_loop_filter filter_empty_conv)
qed

lemma parse_csv_Nil: "normalize raw = [] \<Longrightarrow> parse_csv raw = Inr []"
  by (simp add: parse_csv_def decode_def csv_reader_def parse_reset_def)

lemma run_extraction_no_rows_iff:
  "snd (run_extraction choose_headers raw) = Inl (ValueError no_rows_msg)
     \<longleftrightarrow> parse_csv raw = Inr []"
proof (cases "parse_csv raw")
  case (Inl e)
  with parse_csv_ok [of raw] have "e = field_limit_error"
    by auto
  with Inl show ?thesis
    by (simp add: run_extraction_def field_limit_error_def)
next
  case (Inr rows)
  show ?thesis
  proof (cases rows)
    case Nil
    with Inr show ?thesis
      by (simp add: run_extraction_def)
  next
    case (Cons headers rest)
    have "no_columns_msg \<noteq> no_rows_msg"
      by (simp add: no_columns_msg_def no_rows_msg_def)
    with Inr Cons show ?thesis
      by (simp add: run_extraction_def getitem_def Let_def project_Cons)
  qed
qed

text \<open>
  Claim C4, as the code has it. When every line of the answer is blank or a fence line,
  no line is kept and \<open>parse_csv\<close> returns the empty list: the decoder does not fail.
  It is \<open>run_extraction\<close> that then fails, with its "No rows parsed" error and without
  a call of the dialog; and it fails with that error exactly when \<open>parse_csv\<close> returns no
  row. The counterexample is an answer of two fence lines, which \<open>parse_csv\<close> decodes to
  the empty list.
\<close>

theorem empty_response_fails:
  "((\<forall>line \<in> set (splitlines raw). blank_line line \<or> fence_line line)
      \<longrightarrow> normalize raw = []
          \<and> parse_csv raw = Inr []
          \<and> run_extraction choose_headers raw = ([], Inl (ValueError no_rows_msg)))
   \<and> (snd (run_extraction choose_headers raw) = Inl (ValueError no_rows_msg)
        \<longleftrightarrow> parse_csv raw = Inr [])"
proof -
  have "normalize raw = []
        \<and> parse_csv raw = Inr []
        \<and> run_extraction choose_headers raw = ([], Inl (ValueError no_rows_msg))"
    if "\<forall>line \<in> set (splitlines raw). blank_line line \<or> fence_line line"
  proof -
    from that have n: "normalize raw = []"
      by (rule normalize_empty)
    then have "parse_csv raw = Inr []"
      by (rule parse_csv_Nil)
    with n show ?thesis
      by (simp add: run_extraction_def)
  qed
  then show ?thesis
    using run_extraction_no_rows_iff by blast
qed

theorem empty_response_fails_witness:
  "list_all (\<lambda>line. blank_line line \<or> fence_line line)
     (splitlines (str ''```csv\<newline>\<newline>  \<newline> ```''))
   \<and> normalize (str ''```csv\<newline>\<newline>  \<newline> ```'') = []
   \<and> parse_csv (str ''```csv\<newline>\<newline>  \<newline> ```'') = Inr []
   \<and> run_extraction (\<lambda>headers preview_rows. headers) (str ''```csv\<newline>\<newline>  \<newline> ```'')
       = ([], Inl (ValueError no_rows_msg))"
proof -
  have a: "list_all (\<lambda>line. blank_line line \<or> fence_line line)
             (splitlines (str ''```csv\<newline>\<newline>  \<newline> ```''))"
    by (simp add: str_ev blank_line_def fence_line_def)
  then have "\<forall>line \<in> set (splitlines (str ''```csv\<newline>\<newline>  \<newline> ```'')).
               blank_line line \<or> fence_line line"
    by (simp only: list_all_iff)
  with empty_response_fails [of "str ''```csv\<newline>\<newline>  \<newline> ```''" "\<lambda>headers preview_rows. headers"] a
  show ?thesis
    by blast
qed

theorem empty_table_counterexample:
  "normalize (str ''```csv\<newline>```'') = []
   \<and> decode [] = Inr []
   \<and> parse_csv (str ''```csv\<newline>```'') = Inr []
   \<and> parse_csv (str ''```csv\<newline>```'') \<noteq> Inl (ValueError no_rows_msg)"
  by (simp add: str_ev csv_ev)



text \<open>
  Claim C3, as the code has it. The decoder trims a cell only to test it: a parsed row is
  dropped exactly when every cell is empty after trimming, and a row that is kept keeps
  its cells as the reader parsed them, whitespace included. The counterexample is the
  line \<open>a , b\<close>, whose cells stay \<open>a\<close> with a trailing and \<open>b\<close> with a leading
  space.
\<close>

theorem decode_drops_blank_rows:
  assumes "decode lines = Inr t"
  shows "\<exists>rows. csv_reader lines = Inr rows
           \<and> t = filter (\<lambda>row. \<exists>cell \<in> set row. strip cell \<noteq> []) rows
           \<and> (\<forall>row \<in> set t. row \<in> set rows \<and> (\<exists>cell \<in> set row. strip cell \<noteq> []))"
proof (cases "csv_reader lines")
  case (Inl e)
  with assms show ?thesis
    by (simp add: decode_def)
next
  case (Inr rows)
  have "filter any_cell rows = filter (\<lambda>row. \<exists>cell \<in> set row. strip cell \<noteq> []) rows"
    by (rule filter_cong) (simp_all add: any_cell_def list_ex_iff)
  with assms Inr show ?thesis
    by (auto simp: decode_def)
qed

theorem decode_drops_blank_rows_witness:
  "decode [str ''a , b'', str '' , '', str ''c''] = Inr [[str ''a '', str '' b''], [str ''c'']]
   \<and> csv_reader [str ''a , b'', str '' , '', str ''c'']
       = Inr [[str ''a '', str '' b''], [str '' '', str '' ''], [str ''c'']]"
proof -
  have a: "decode [str ''a , b'', str '' , '', str ''c''] = Inr [[str ''a '', str '' b''], [str ''c'']]"
    by (simp add: str_ev csv_ev)
  have b: "csv_reader [str ''a , b'', str '' , '', str ''c'']
       = Inr [[str ''a '', str '' b''], [str '' '', str '' ''], [str ''c'']]"
    by (simp add: str_ev csv_ev)
  from decode_drops_blank_rows [OF a] a b show ?thesis
    by simp
qed

theorem decode_trims_cells_counterexample:
  "csv_reader [str ''a , b''] = Inr [[str ''a '', str '' b'']]
   \<and> decode [str ''a , b''] = Inr [[str ''a '', str '' b'']]
   \<and> trim_cells_drop_blank [[str ''a '', str '' b'']] = [[str ''a'', str ''b'']]
   \<and> decode [str ''a , b''] \<noteq> Inr (trim_cells_drop_blank [[str ''a '', str '' b'']])"
  by (simp add: str_ev csv_ev trim_cells_drop_blank_def)

lemma feed_line_quoted:
  assumes "state r = IN_QUOTED_FIELD" and "quotechar \<notin> set line"
    and "length (field r) + length line \<le> field_limit"
  shows "feed_line r line = Inr (r\<lparr>field := field r @ line\<rparr>)"
  using assms
proof (induction line arbitrary: r)
  case Nil
  then show ?case
    by (simp add: parse_process_char_def)
next
  case (Cons c cs)
  let ?r' = "r\<lparr>field := field r @ [c]\<rparr>"
  from Cons.prems have "parse_process_char r (Some c) = Inr ?r'"
    by (simp add: parse_process_char_def parse_add_char_def)
  moreover have "feed_line ?r' cs = Inr (?r'\<lparr>field := field ?r' @ cs\<rparr>)"
    using Cons.prems by (intro Cons.IH) simp_all
  ultimately show ?case
    by simp
qed

lemma reader_loop_quoted:
  assumes "state r = IN_QUOTED_FIELD" and "\<forall>line \<in> set lines. quotechar \<notin> set line"
    and "length (field r) + length (concat lines) \<le> field_limit"
  shows "reader_loop r rows lines = Inr (rows @ [fields' r @ [field r @ concat lines]])"
  using assms
proof (induction lines arbitrary: r)
  case Nil
  then show ?case
    by (simp add: parse_save_field_def)
next
  case (Cons line rest)
  let ?r' = "r\<lparr>field := field r @ line\<rparr>"
  from Cons.prems have "feed_line r line = Inr ?r'"
    by (intro feed_line_quoted) simp_all
  moreover have "reader_loop ?r' rows rest
                   = Inr (rows @ [fields' ?r' @ [field ?r' @ concat rest]])"
    using Cons.prems by (intro Cons.IH) simp_all
  ultimately show ?case
    using Cons.prems(1) by simp
qed

lemma feed_line_append:
  "feed_chars r p = Inr r' \<Longrightarrow> feed_line r (p @ s) = feed_line r' s"
  by (induction p arbitrary: r) (auto split: sum.splits)

lemma reader_loop_append:
  "reader_after r rows pre = Inr (r', rows') \<Longrightarrow>
     reader_loop r rows (pre @ ls) = reader_loop r' rows' ls"
  by (induction pre arbitrary: r rows) (auto split: sum.splits if_splits)

lemma csv_reader_open_quote:
  assumes at: "reader_at pre p = Inr (r, rows)"
    and st: "state r = IN_QUOTED_FIELD"
    and a: "quotechar \<notin> set a"
    and rest: "\<forall>line \<in> set rest. quotechar \<notin> set line"
    and len: "length (field r) + length a + length (concat rest) \<le> field_limit"
  shows "csv_reader (pre @ [p @ a] @ rest)
           = Inr (rows @ [fields' r @ [field r @ a @ concat rest]])"
proof -
  from at obtain r0 where pre: "reader_after parse_reset [] pre = Inr (r0, rows)"
    and p: "feed_chars r0 p = Inr r"
    by (auto simp: reader_at_def split: sum.splits prod.splits)
  let ?r' = "r\<lparr>field := field r @ a\<rparr>"
  have "feed_line r a = Inr ?r'"
    using st a len by (intro feed_line_quoted) simp_all
  with p have line: "feed_line r0 (p @ a) = Inr ?r'"
    by (simp add: feed_line_append)
  have "reader_loop ?r' rows rest = Inr (rows @ [fields' ?r' @ [field ?r' @ concat rest]])"
    using st rest len by (intro reader_loop_quoted) simp_all
  with line st have "reader_loop r0 rows ((p @ a) # rest)
                       = Inr (rows @ [fields' r @ [field r @ a @ concat rest]])"
    by simp
  with pre show ?thesis
    by (simp add: csv_reader_def reader_loop_append)
qed

text \<open>
  Claim C1, as the code has it. An unbalanced double quote raises nothing, the reader
  not being strict. Wherever in the input the reader is inside a quoted field, after the
  lines \<open>pre\<close> and the characters \<open>p\<close> of the next line, and no double quote follows,
  the field takes in the rest \<open>a\<close> of its line and all the later lines, appended without
  separator; its record, with the fields read before, is the last one, after the records
  yielded before; and the decoder returns these rows, less the blank ones. The only
  exception of \<open>parse_csv\<close> is that of the reader for a field longer than the field
  limit, which needs an input longer than the limit. The counterexample is the
  specification's own example, \<open>Name,"Age\<close> followed by \<open>1,2\<close>.
\<close>

theorem unbalanced_quote_no_error:
  "((\<exists>t. parse_csv raw = Inr t)
      \<or> (parse_csv raw = Inl field_limit_error \<and> field_limit < length raw))
   \<and> (reader_at pre p = Inr (r, rows) \<longrightarrow> state r = IN_QUOTED_FIELD
        \<longrightarrow> quotechar \<notin> set a \<longrightarrow> (\<forall>line \<in> set rest. quotechar \<notin> set line)
        \<longrightarrow> length (field r) + length a + length (concat rest) \<le> field_limit
        \<longrightarrow> decode (pre @ [p @ a] @ rest)
              = Inr (filter any_cell (rows @ [fields' r @ [field r @ a @ concat rest]])))"
  using parse_csv_ok [of raw] csv_reader_open_quote [of pre p r rows a rest]
  by (simp add: decode_def)

theorem unbalanced_quote_no_error_witness:
  "reader_at [str ''a,b''] (str ''c,'' @ [quotechar])
     = Inr (\<lparr>state = IN_QUOTED_FIELD, fields' = [str ''c''], field = []\<rparr>, [[str ''a'', str ''b'']])
   \<and> quotechar \<notin> set (str ''d,e'') \<and> quotechar \<notin> set (str ''f,g'')
   \<and> length (str ''d,e'') + length (concat [str ''f,g'']) \<le> field_limit
   \<and> decode [str ''a,b'', str ''c,'' @ [quotechar] @ str ''d,e'', str ''f,g'']
       = Inr [[str ''a'', str ''b''], [str ''c'', str ''d,ef,g'']]"
proof -
  let ?r = "\<lparr>state = IN_QUOTED_FIELD, fields' = [str ''c''], field = []\<rparr>"
  have at: "reader_at [str ''a,b''] (str ''c,'' @ [quotechar]) = Inr (?r, [[str ''a'', str ''b'']])"
    by (simp add: reader_at_def str_ev csv_ev)
  have st: "state ?r = IN_QUOTED_FIELD"
    by simp
  have a: "quotechar \<notin> set (str ''d,e'')"
    by (simp add: str_def quotechar_def)
  have b: "\<forall>line \<in> set [str ''f,g'']. quotechar \<notin> set line"
    by (simp add: str_def quotechar_def)
  have c: "length (field ?r) + length (str ''d,e'') + length (concat [str ''f,g'']) \<le> field_limit"
    by (simp add: str_def field_limit_def)
  have d: "filter any_cell ([[str ''a'', str ''b'']]
             @ [fields' ?r @ [field ?r @ str ''d,e'' @ concat [str ''f,g'']]])
           = [[str ''a'', str ''b''], [str ''c'', str ''d,ef,g'']]"
    by (simp add: str_ev any_cell_def)
  from unbalanced_quote_no_error [of _ "[str ''a,b'']" "str ''c,'' @ [quotechar]" ?r
      "[[str ''a'', str ''b'']]" "str ''d,e''" "[str ''f,g'']"] at st a b c
  have "decode ([str ''a,b''] @ [(str ''c,'' @ [quotechar]) @ str ''d,e''] @ [str ''f,g''])
          = Inr (filter any_cell ([[str ''a'', str ''b'']]
                  @ [fields' ?r @ [field ?r @ str ''d,e'' @ concat [str ''f,g'']]]))"
    by blast
  with at a b c d show ?thesis
    by simp
qed

theorem unbalanced_quote_counterexample:
  "normalize (str ''Name,'' @ [quotechar] @ str ''Age\<newline>1,2'')
     = [str ''Name,'' @ [quotechar] @ str ''Age'', str ''1,2'']
   \<and> decode [str ''Name,'' @ [quotechar] @ str ''Age'', str ''1,2'']
     = Inr [[str ''Name'', str ''Age1,2'']]
   \<and> parse_csv (str ''Name,'' @ [quotechar] @ str ''Age\<newline>1,2'')
     = Inr [[str ''Name'', str ''Age1,2'']]"
  by (simp add: str_ev csv_ev)

end
